theory Spec2Isabelle
  imports Main "HOL-Library.Finite_Map"
begin

section \<open>The work queue of eventfs (wq.c)\<close>

text \<open>
  The development embeds \<^verbatim>\<open>wq.c\<close>: the work requests, the work queue, its lifecycle
  functions, \<^verbatim>\<open>eventfs_wq_add\<close> and the worker \<^verbatim>\<open>eventfs_wq_main\<close>.

  Conventions of the embedding.
  \<^item> A \<^verbatim>\<open>struct eventfs_wreq*\<close> is an \<open>addr option\<close>; \<open>None\<close> is \<^verbatim>\<open>NULL\<close>. The work
    requests live in an explicit store, a finite map from addresses to structs; an
    address outside the store is unallocated or freed memory.
  \<^item> Dereferencing \<^verbatim>\<open>NULL\<close> or a freed address, and calling through a \<^verbatim>\<open>NULL\<close> function
    pointer, are undefined in C; the functions that can do so return a \<open>fault\<close>.
  \<^item> A function pointer \<^verbatim>\<open>eventfs_wq_func_t\<close> is the identity of a function; what the
    functions do is a parameter \<open>cbs\<close>: a callback receives the request handle and the
    payload, returns its status, and may change a state of its own (\<open>user\<close>). Callbacks
    are taken not to touch the queue or the requests.
  \<^item> \<^verbatim>\<open>int\<close> values are mathematical integers: the only arithmetic is the negation of
    small error numbers.
  \<^item> What the POSIX primitives answer (\<^verbatim>\<open>pthread_mutex_init\<close>, \<^verbatim>\<open>pthread_create\<close>,
    \<^verbatim>\<open>sem_trywait\<close>, \<^verbatim>\<open>sem_wait\<close>) is an input of the function that calls them. The
    semaphore is its count; \<^verbatim>\<open>sem_post\<close> adds one to a count below \<^verbatim>\<open>SEM_VALUE_MAX\<close> and
    fails with \<^verbatim>\<open>EOVERFLOW\<close> on a count that has reached it. \<^verbatim>\<open>errno\<close> is the one of the
    calling thread. Locking and unlocking the mutex leave no trace in the state: each
    function is taken as one step.
  \<^item> Calls that can be observed from outside (callback invocations, error reports,
    releases of memory, destruction of the primitives, thread operations) are recorded
    in \<open>trace\<close>, oldest first. The debug messages of \<^verbatim>\<open>eventfs_debug\<close> are not recorded.
\<close>

subsection \<open>Data\<close>

type_synonym addr = nat
type_synonym ptr = "addr option"
type_synonym fn = nat
type_synonym data = nat

text \<open>
  Modelled from the spec: the header \<^verbatim>\<open>wq.h\<close> with the two struct declarations is not among
  the sources. The records have the fields that \<^verbatim>\<open>wq.c\<close> reads and writes, which are the
  fields of the specification's data model.

  \<^verbatim>\<open>struct eventfs_wreq\<close>: fields \<^verbatim>\<open>work\<close> (the callback), \<^verbatim>\<open>work_data\<close> (the payload) and
  \<^verbatim>\<open>next\<close>.
\<close>

record eventfs_wreq =
  wreq_work :: "fn option"
  wreq_work_data :: data
  wreq_next :: ptr

text \<open>
  \<^verbatim>\<open>struct eventfs_wq\<close>: fields \<^verbatim>\<open>thread\<close>, \<^verbatim>\<open>work\<close> (head of the pending chain), \<^verbatim>\<open>tail\<close>,
  \<^verbatim>\<open>work_lock\<close> (here: whether the mutex is initialised), \<^verbatim>\<open>work_sem\<close> (here: the count)
  and \<^verbatim>\<open>running\<close>.
\<close>

record eventfs_wq =
  wq_thread :: nat
  wq_work :: ptr
  wq_tail :: ptr
  wq_work_lock :: bool
  wq_work_sem :: nat
  wq_running :: bool

text \<open>
  Modelled from the spec: the reporting macro \<^verbatim>\<open>eventfs_error\<close> is not in \<^verbatim>\<open>wq.c\<close>; the
  specification has the failures reported to a diagnostic sink, log only. A report is an
  event of the trace that carries the values printed: \<open>Report_work\<close> the function and its
  status, \<open>Report_fatal\<close> the negated error of \<^verbatim>\<open>sem_trywait\<close>, \<open>Report_create\<close> the value
  printed when \<^verbatim>\<open>pthread_create\<close> fails. The other events are the call of a request's
  function with the request handle and the payload (\<open>Invoke\<close>), the release of a node's
  memory, the destruction of the mutex and of the semaphore, and the creation,
  cancellation and join of the worker thread.
\<close>

datatype event =
    Invoke fn addr data
  | Report_work fn int
  | Report_fatal int
  | Report_create int
  | Release addr
  | Mutex_destroy
  | Sem_destroy
  | Thread_create nat
  | Thread_cancel nat
  | Thread_join nat

datatype fault = Bad_pointer | Null_call

type_synonym store = "(addr, eventfs_wreq) fmap"

record 'u world =
  wq :: eventfs_wq
  heap :: store
  errno :: int
  user :: 'u
  trace :: "event list"

type_synonym 'u callbacks = "fn \<Rightarrow> addr \<Rightarrow> data \<Rightarrow> 'u \<Rightarrow> int \<times> 'u"

text \<open>
  The two error numbers the code names, the two other errors the semaphore functions can
  fail with, and the greatest count of a semaphore, with their values on Linux.
\<close>

definition EINVAL :: int where
  "EINVAL = 22"

definition EAGAIN :: int where
  "EAGAIN = 11"


definition EOVERFLOW :: int where
  "EOVERFLOW = 75"

definition SEM_VALUE_MAX :: nat where
  "SEM_VALUE_MAX = 2147483647"

text \<open>The result of \<^verbatim>\<open>memset( p, 0, sizeof(...) )\<close> on each struct.\<close>

definition zero_wreq :: eventfs_wreq where
  "zero_wreq = \<lparr>wreq_work = None, wreq_work_data = 0, wreq_next = None\<rparr>"

definition zero_wq :: eventfs_wq where
  "zero_wq = \<lparr>wq_thread = 0, wq_work = None, wq_tail = None, wq_work_lock = False,
     wq_work_sem = 0, wq_running = False\<rparr>"

definition log_event :: "event \<Rightarrow> 'u world \<Rightarrow> 'u world" where
  "log_event e w = w\<lparr>trace := trace w @ [e]\<rparr>"

subsection \<open>The primitives the code calls\<close>

text \<open>
  The semaphore functions take the count and \<^verbatim>\<open>errno\<close> and give the return value, the new
  count and the new \<^verbatim>\<open>errno\<close>. \<^verbatim>\<open>sem_post\<close> adds one to a count below \<^verbatim>\<open>SEM_VALUE_MAX\<close>; on
  a count that has reached it, it fails with \<^verbatim>\<open>EOVERFLOW\<close> and leaves the count.
  \<^verbatim>\<open>sem_trywait\<close> and \<^verbatim>\<open>sem_wait\<close> take, before these, the error the environment makes
  them fail with, if any. Without a forced error, \<^verbatim>\<open>sem_trywait\<close> takes one unit of a
  positive count and fails with \<^verbatim>\<open>EAGAIN\<close> on a zero count, and \<^verbatim>\<open>sem_wait\<close> takes one unit
  of a positive count and does not return on a zero count (\<open>None\<close>).
\<close>

definition sem_post :: "nat \<Rightarrow> int \<Rightarrow> int \<times> nat \<times> int" where
  "sem_post c en = (if c < SEM_VALUE_MAX then (0, c + 1, en) else (- 1, c, EOVERFLOW))"

definition sem_trywait :: "int option \<Rightarrow> nat \<Rightarrow> int \<Rightarrow> int \<times> nat \<times> int" where
  "sem_trywait forced c en =
     (case forced of
        Some e \<Rightarrow> (- 1, c, e)
      | None \<Rightarrow> if 0 < c then (0, c - 1, en) else (- 1, c, EAGAIN))"

definition sem_wait :: "int option \<Rightarrow> nat \<Rightarrow> int \<Rightarrow> (int \<times> nat \<times> int) option" where
  "sem_wait forced c en =
     (case forced of
        Some e \<Rightarrow> Some (- 1, c, e)
      | None \<Rightarrow> if 0 < c then Some (0, c - 1, en) else None)"

text \<open>
  Modelled from the spec: the macro \<^verbatim>\<open>eventfs_safe_free\<close> is not in \<^verbatim>\<open>wq.c\<close>; the
  specification has the worker and the teardown release the node, so it gives the
  memory at the address back.
\<close>

definition eventfs_safe_free :: "addr \<Rightarrow> store \<Rightarrow> store" where
  "eventfs_safe_free a h = fmdrop a h"

subsection \<open>Work requests\<close>

definition eventfs_wreq_init :: "eventfs_wreq \<Rightarrow> fn option \<Rightarrow> data \<Rightarrow> int \<times> eventfs_wreq" where
  "eventfs_wreq_init wreq work work_data =
     (let wreq = zero_wreq;
          wreq = wreq\<lparr>wreq_work := work\<rparr>;
          wreq = wreq\<lparr>wreq_work_data := work_data\<rparr>
      in (0, wreq))"

definition eventfs_wreq_free :: "eventfs_wreq \<Rightarrow> int \<times> eventfs_wreq" where
  "eventfs_wreq_free wreq = (0, zero_wreq)"

text \<open>
  The two calls that end the life of a node, in the worker and in the teardown alike:
  \<^verbatim>\<open>eventfs_wreq_free( p ); eventfs_safe_free( p );\<close>
\<close>

definition release_node :: "addr \<Rightarrow> eventfs_wreq \<Rightarrow> 'u world \<Rightarrow> 'u world" where
  "release_node a n w =
     (let h = fmupd a (snd (eventfs_wreq_free n)) (heap w);
          h = eventfs_safe_free a h
      in log_event (Release a) (w\<lparr>heap := h\<rparr>))"

subsection \<open>Lifecycle\<close>

definition eventfs_wq_init :: "int \<Rightarrow> 'u world \<Rightarrow> int \<times> 'u world" where
  "eventfs_wq_init mutex_rc w =
     (let rc = (0::int);
          w = w\<lparr>wq := zero_wq\<rparr>;
          rc = mutex_rc
      in if rc \<noteq> 0 then (- \<bar>rc\<bar>, w)
         else (rc, w\<lparr>wq := (wq w)\<lparr>wq_work_lock := True, wq_work_sem := 0\<rparr>\<rparr>))"

text \<open>
  \<^verbatim>\<open>pthread_create\<close> answers with its return value and, when that is 0, the new thread's
  handle; it reports its error in the return value and leaves \<^verbatim>\<open>errno\<close> alone.
\<close>

definition eventfs_wq_start :: "int \<times> nat \<Rightarrow> 'u world \<Rightarrow> int \<times> 'u world" where
  "eventfs_wq_start created w =
     (if wq_running (wq w) then (- EINVAL, w)
      else
        let w = w\<lparr>wq := (wq w)\<lparr>wq_running := True\<rparr>\<rparr>;
            rc = fst created
        in if rc \<noteq> 0 then
             (let w = w\<lparr>wq := (wq w)\<lparr>wq_running := False\<rparr>\<rparr>;
                  rc = - errno w;
                  w = log_event (Report_create rc) w
              in (rc, w))
           else
             (0, log_event (Thread_create (snd created))
                   (w\<lparr>wq := (wq w)\<lparr>wq_thread := snd created\<rparr>\<rparr>)))"

definition eventfs_wq_stop :: "'u world \<Rightarrow> int \<times> 'u world" where
  "eventfs_wq_stop w =
     (if \<not> wq_running (wq w) then (- EINVAL, w)
      else
        let w = w\<lparr>wq := (wq w)\<lparr>wq_running := False\<rparr>\<rparr>;
            (posted, c, en) = sem_post (wq_work_sem (wq w)) (errno w);
            w = w\<lparr>wq := (wq w)\<lparr>wq_work_sem := c\<rparr>, errno := en\<rparr>;
            w = log_event (Thread_cancel (wq_thread (wq w))) w;
            w = log_event (Thread_join (wq_thread (wq w))) w
        in (0, w))"

function eventfs_wq_queue_free :: "ptr \<Rightarrow> 'u world \<Rightarrow> fault + (int \<times> 'u world)" where
  "eventfs_wq_queue_free wqueue w =
     (case wqueue of
        None \<Rightarrow> Inr (0, w)
      | Some a \<Rightarrow>
          (case fmlookup (heap w) a of
             None \<Rightarrow> Inl Bad_pointer
           | Some n \<Rightarrow> eventfs_wq_queue_free (wreq_next n) (release_node a n w)))"
  by pat_completeness auto
termination
proof (relation "measure (\<lambda>(p, w). card (fmdom' (heap w)))")
  show "wf (measure (\<lambda>(p, w::'u world). card (fmdom' (heap w))))"
    by simp
next
  fix wqueue :: ptr and w :: "'u world" and a n
  assume "wqueue = Some a" and "fmlookup (heap w) a = Some n"
  then have "a \<in> fmdom' (heap w)"
    by (simp add: fmlookup_dom'_iff)
  moreover have "finite (fmdom' (heap w))"
    by (simp add: fmdom'_alt_def)
  ultimately have "card (fmdom' (heap w) - {a}) < card (fmdom' (heap w))"
    by (rule card_Diff1_less [rotated])
  then show "((wreq_next n, release_node a n w), (wqueue, w))
      \<in> measure (\<lambda>(p, w). card (fmdom' (heap w)))"
    by (simp add: release_node_def eventfs_safe_free_def log_event_def)
qed

definition eventfs_wq_free :: "'u world \<Rightarrow> fault + (int \<times> 'u world)" where
  "eventfs_wq_free w =
     (if wq_running (wq w) then Inr (- EINVAL, w)
      else
        case eventfs_wq_queue_free (wq_work (wq w)) w of
          Inl f \<Rightarrow> Inl f
        | Inr (_, w) \<Rightarrow>
            (let w = log_event Mutex_destroy w;
                 w = log_event Sem_destroy w;
                 w = w\<lparr>wq := zero_wq\<rparr>
             in Inr (0, w)))"

subsection \<open>Enqueue\<close>

definition eventfs_wq_add :: "ptr \<Rightarrow> 'u world \<Rightarrow> fault + (int \<times> 'u world)" where
  "eventfs_wq_add wreq w =
     (let rc = (0::int);
          linked =
            (if wq_work (wq w) = None then
               Inr (w\<lparr>wq := (wq w)\<lparr>wq_work := wreq, wq_tail := wreq\<rparr>\<rparr>)
             else
               (case wq_tail (wq w) of
                  None \<Rightarrow> Inl Bad_pointer
                | Some t \<Rightarrow>
                    (case fmlookup (heap w) t of
                       None \<Rightarrow> Inl Bad_pointer
                     | Some n \<Rightarrow>
                         Inr (w\<lparr>heap := fmupd t (n\<lparr>wreq_next := wreq\<rparr>) (heap w),
                                wq := (wq w)\<lparr>wq_tail := wreq\<rparr>\<rparr>))))
      in case linked of
           Inl f \<Rightarrow> Inl f
         | Inr w \<Rightarrow>
             (let w = (if rc = 0
                       then (let (posted, c, en) = sem_post (wq_work_sem (wq w)) (errno w)
                             in w\<lparr>wq := (wq w)\<lparr>wq_work_sem := c\<rparr>, errno := en\<rparr>)
                       else w)
              in Inr (rc, w)))"

subsection \<open>The worker\<close>

text \<open>
  The inner loop of \<^verbatim>\<open>eventfs_wq_main\<close>, over the detached chain: call the node's
  function, report a status other than 0, read \<^verbatim>\<open>next\<close>, release the node, go on.
\<close>

function eventfs_wq_main_batch :: "'u callbacks \<Rightarrow> ptr \<Rightarrow> 'u world \<Rightarrow> fault + 'u world" where
  "eventfs_wq_main_batch cbs work_itr w =
     (case work_itr of
        None \<Rightarrow> Inr w
      | Some a \<Rightarrow>
          (case fmlookup (heap w) a of
             None \<Rightarrow> Inl Bad_pointer
           | Some n \<Rightarrow>
               (case wreq_work n of
                  None \<Rightarrow> Inl Null_call
                | Some f \<Rightarrow>
                    (let (rc, u) = cbs f a (wreq_work_data n) (user w);
                         w1 = log_event (Invoke f a (wreq_work_data n)) (w\<lparr>user := u\<rparr>);
                         w2 = (if rc \<noteq> 0 then log_event (Report_work f rc) w1 else w1)
                     in eventfs_wq_main_batch cbs (wreq_next n) (release_node a n w2)))))"
  by pat_completeness auto
termination
proof (relation "measure (\<lambda>(cbs, p, w). card (fmdom' (heap w)))")
  show "wf (measure (\<lambda>(cbs::'u callbacks, p, w::'u world). card (fmdom' (heap w))))"
    by simp
next
  fix cbs :: "'u callbacks" and work_itr :: ptr and w w1 w2 :: "'u world"
    and a n f x rc u
  assume "fmlookup (heap w) a = Some n"
    and w1: "w1 = log_event (Invoke f a (wreq_work_data n)) (w\<lparr>user := u\<rparr>)"
    and w2: "w2 = (if rc \<noteq> 0 then log_event (Report_work f rc) w1 else w1)"
  then have "a \<in> fmdom' (heap w)"
    by (simp add: fmlookup_dom'_iff)
  moreover have "finite (fmdom' (heap w))"
    by (simp add: fmdom'_alt_def)
  ultimately have "card (fmdom' (heap w) - {a}) < card (fmdom' (heap w))"
    by (rule card_Diff1_less [rotated])
  moreover have "heap w2 = heap w"
    by (simp add: w1 w2 log_event_def)
  ultimately show "((cbs, wreq_next n, release_node a n w2), (cbs, work_itr, w))
      \<in> measure (\<lambda>(cbs, p, w). card (fmdom' (heap w)))"
    by (simp add: release_node_def eventfs_safe_free_def log_event_def)
qed

text \<open>
  Where the worker stands between two steps: at the top of its \<^verbatim>\<open>while\<close> loop, inside
  \<^verbatim>\<open>sem_wait\<close>, or returned.
\<close>

datatype wstatus = Looping | Blocked | Exited

text \<open>What the environment makes the two waits of one iteration fail with, if anything.\<close>

record sem_env =
  trywait_err :: "int option"
  wait_err :: "int option"

text \<open>
  The iteration from the check \<^verbatim>\<open>if( !wq->running )\<close> on: leave the loop when cancelled,
  else detach the chain and work through it.
\<close>

definition eventfs_wq_main_work :: "'u callbacks \<Rightarrow> 'u world \<Rightarrow> fault + (wstatus \<times> 'u world)" where
  "eventfs_wq_main_work cbs w =
     (if \<not> wq_running (wq w) then Inr (Exited, w)
      else
        let work_itr = wq_work (wq w);
            w = w\<lparr>wq := (wq w)\<lparr>wq_work := None\<rparr>\<rparr>;
            w = w\<lparr>wq := (wq w)\<lparr>wq_tail := None\<rparr>\<rparr>
        in case eventfs_wq_main_batch cbs work_itr w of
             Inl f \<Rightarrow> Inl f
           | Inr w \<Rightarrow> Inr (Looping, w))"

text \<open>
  The iteration from the call of \<^verbatim>\<open>sem_wait\<close> on. Its return value is not looked at. A
  wait that does not return leaves the worker inside it, the world as it is.
\<close>

definition eventfs_wq_main_wait ::
  "'u callbacks \<Rightarrow> sem_env \<Rightarrow> 'u world \<Rightarrow> fault + (wstatus \<times> 'u world)" where
  "eventfs_wq_main_wait cbs env w =
     (case sem_wait (wait_err env) (wq_work_sem (wq w)) (errno w) of
        None \<Rightarrow> Inr (Blocked, w)
      | Some (_, c, en) \<Rightarrow>
          eventfs_wq_main_work cbs (w\<lparr>wq := (wq w)\<lparr>wq_work_sem := c\<rparr>, errno := en\<rparr>))"

text \<open>One iteration of \<^verbatim>\<open>while( wq->running )\<close>, from the top.\<close>

definition eventfs_wq_main_iter ::
  "'u callbacks \<Rightarrow> sem_env \<Rightarrow> 'u world \<Rightarrow> fault + (wstatus \<times> 'u world)" where
  "eventfs_wq_main_iter cbs env w =
     (if \<not> wq_running (wq w) then Inr (Exited, w)
      else
        let (rc, c, en) = sem_trywait (trywait_err env) (wq_work_sem (wq w)) (errno w);
            w = w\<lparr>wq := (wq w)\<lparr>wq_work_sem := c\<rparr>, errno := en\<rparr>
        in if rc \<noteq> 0 then
             (let rc = - errno w
              in if rc = - EAGAIN then eventfs_wq_main_wait cbs env w
                 else Inr (Exited, log_event (Report_fatal rc) w))
           else eventfs_wq_main_work cbs w)"

text \<open>
  A step of the worker thread: it goes on from where it stands; a worker that has
  returned does nothing any more.
\<close>

definition eventfs_wq_main_step ::
  "'u callbacks \<Rightarrow> sem_env \<Rightarrow> wstatus \<times> 'u world \<Rightarrow> fault + (wstatus \<times> 'u world)" where
  "eventfs_wq_main_step cbs env s =
     (case fst s of
        Looping \<Rightarrow> eventfs_wq_main_iter cbs env (snd s)
      | Blocked \<Rightarrow> eventfs_wq_main_wait cbs env (snd s)
      | Exited \<Rightarrow> Inr s)"

subsection \<open>Producers and the worker together\<close>

text \<open>
  A run of the system is a list of actions: a producer's \<^verbatim>\<open>eventfs_wq_add\<close> of the request
  at an address, or a step of the worker. The steps of the worker are taken whole: the
  chain it works through has been detached under the lock and no producer reaches it.
\<close>

datatype action = Add addr | Work sem_env

definition sys_step ::
  "'u callbacks \<Rightarrow> action \<Rightarrow> wstatus \<times> 'u world \<Rightarrow> fault + (wstatus \<times> 'u world)" where
  "sys_step cbs act s =
     (case act of
        Add a \<Rightarrow>
          (case eventfs_wq_add (Some a) (snd s) of
             Inl f \<Rightarrow> Inl f
           | Inr (_, w) \<Rightarrow> Inr (fst s, w))
      | Work env \<Rightarrow> eventfs_wq_main_step cbs env s)"

fun sys_run ::
  "'u callbacks \<Rightarrow> action list \<Rightarrow> wstatus \<times> 'u world \<Rightarrow> fault + (wstatus \<times> 'u world)" where
  "sys_run cbs [] s = Inr s"
| "sys_run cbs (act # acts) s =
     (case sys_step cbs act s of
        Inl f \<Rightarrow> Inl f
      | Inr s' \<Rightarrow> sys_run cbs acts s')"

fun adds :: "action list \<Rightarrow> addr list" where
  "adds [] = []"
| "adds (Add a # acts) = a # adds acts"
| "adds (Work env # acts) = adds acts"

fun invoked :: "event list \<Rightarrow> addr list" where
  "invoked [] = []"
| "invoked (Invoke f a d # es) = a # invoked es"
| "invoked (e # es) = invoked es"

subsection \<open>The pending chain as a list\<close>

text \<open>
  \<open>chain h p as\<close>: from the pointer \<open>p\<close>, the \<^verbatim>\<open>next\<close> fields of the store \<open>h\<close> lead through the
  addresses \<open>as\<close>, in this order, to \<^verbatim>\<open>NULL\<close>.
\<close>

fun chain :: "store \<Rightarrow> ptr \<Rightarrow> addr list \<Rightarrow> bool" where
  "chain h p [] = (p = None)"
| "chain h p (a # as) =
     (p = Some a \<and>
      (case fmlookup h a of None \<Rightarrow> False | Some n \<Rightarrow> chain h (wreq_next n) as))"

text \<open>
  \<open>pending w as\<close>: the queue of \<open>w\<close> holds exactly the requests at \<open>as\<close>, head first, and
  \<^verbatim>\<open>tail\<close> points to the last of them.
\<close>

definition pending :: "'u world \<Rightarrow> addr list \<Rightarrow> bool" where
  "pending w as =
     (chain (heap w) (wq_work (wq w)) as \<and>
      wq_tail (wq w) = (if as = [] then None else Some (last as)))"

text \<open>\<open>callable h as\<close>: every request at \<open>as\<close> carries a function to call.\<close>

definition callable :: "store \<Rightarrow> addr list \<Rightarrow> bool" where
  "callable h as =
     list_all (\<lambda>a. case fmlookup h a of None \<Rightarrow> False | Some n \<Rightarrow> wreq_work n \<noteq> None) as"

text \<open>
  \<open>fresh h as\<close>: the requests at \<open>as\<close> are ready to be enqueued: allocated, with a function
  to call and \<^verbatim>\<open>next\<close> cleared, as \<^verbatim>\<open>eventfs_wreq_init\<close> leaves them.
\<close>

definition fresh :: "store \<Rightarrow> addr list \<Rightarrow> bool" where
  "fresh h as =
     list_all (\<lambda>a. case fmlookup h a of
                     None \<Rightarrow> False
                   | Some n \<Rightarrow> wreq_work n \<noteq> None \<and> wreq_next n = None) as"

text \<open>
  What working through the requests at \<open>as\<close> of the store \<open>h\<close> leaves in the trace, and
  the callbacks' state after it.
\<close>

fun batch_trace :: "'u callbacks \<Rightarrow> store \<Rightarrow> addr list \<Rightarrow> 'u \<Rightarrow> event list \<times> 'u" where
  "batch_trace cbs h [] u = ([], u)"
| "batch_trace cbs h (a # as) u =
     (case fmlookup h a of
        None \<Rightarrow> ([], u)
      | Some n \<Rightarrow>
          (case wreq_work n of
             None \<Rightarrow> ([], u)
           | Some f \<Rightarrow>
               (let (rc, u') = cbs f a (wreq_work_data n) u;
                    (es, u'') = batch_trace cbs h as u'
                in (Invoke f a (wreq_work_data n)
                      # (if rc \<noteq> 0 then [Report_work f rc] else []) @ Release a # es,
                    u''))))"

text \<open>
  What a step of the worker can do to the queue, seen from the world \<open>w\<close> before it:
  leave the store and the chain alone and call nothing (\<open>untouched\<close>), or take the
  requests at \<open>as\<close> out of the store, leave the chain empty and call the requests at \<open>as\<close>
  in this order (\<open>drained\<close>).
\<close>

definition untouched :: "'u world \<Rightarrow> 'u world \<Rightarrow> bool" where
  "untouched w w' =
     (heap w' = heap w \<and> wq_work (wq w') = wq_work (wq w) \<and> wq_tail (wq w') = wq_tail (wq w)
      \<and> invoked (trace w') = invoked (trace w))"

definition drained :: "addr list \<Rightarrow> 'u world \<Rightarrow> 'u world \<Rightarrow> bool" where
  "drained as w w' =
     (heap w' = fmdrop_set (set as) (heap w) \<and> wq_work (wq w') = None \<and> wq_tail (wq w') = None
      \<and> invoked (trace w') = invoked (trace w) @ as)"

text \<open>The invariant of the two ends of the chain: \<^verbatim>\<open>work\<close> is \<^verbatim>\<open>NULL\<close> exactly when \<^verbatim>\<open>tail\<close> is.\<close>

definition head_tail_inv :: "eventfs_wq \<Rightarrow> bool" where
  "head_tail_inv q = ((wq_work q = None) = (wq_tail q = None))"

text \<open>The invocations with the request handle \<open>a\<close>.\<close>

fun is_invoke_of :: "addr \<Rightarrow> event \<Rightarrow> bool" where
  "is_invoke_of a (Invoke f b d) = (a = b)"
| "is_invoke_of a e = False"

text \<open>The addresses released, in the order of the trace.\<close>

fun released :: "event list \<Rightarrow> addr list" where
  "released [] = []"
| "released (Release a # es) = a # released es"
| "released (e # es) = released es"




subsection \<open>A concrete world\<close>

text \<open>
  Two initialised requests at the addresses 1 and 2, with the functions 1 and 0 and the
  payloads 10 and 20, and an initialised, empty queue with the given \<^verbatim>\<open>running\<close> flag and
  semaphore count. The function 0 returns 0; every other function returns the status 5.
\<close>

definition demo_cbs :: "unit callbacks" where
  "demo_cbs f a d u = (if f = 0 then 0 else 5, u)"

definition demo_heap :: store where
  "demo_heap =
     fmupd 1 (snd (eventfs_wreq_init zero_wreq (Some 1) 10))
       (fmupd 2 (snd (eventfs_wreq_init zero_wreq (Some 0) 20)) fmempty)"

definition demo_world :: "bool \<Rightarrow> nat \<Rightarrow> unit world" where
  "demo_world r c =
     \<lparr>wq = zero_wq\<lparr>wq_work_lock := True, wq_work_sem := c, wq_running := r\<rparr>,
      heap = demo_heap, errno = 0, user = (), trace = []\<rparr>"

definition demo_env :: sem_env where
  "demo_env = \<lparr>trywait_err = None, wait_err = None\<rparr>"

text \<open>The same world after both requests have been enqueued, 1 before 2.\<close>

definition demo_queued :: "bool \<Rightarrow> unit world" where
  "demo_queued r =
     (demo_world r 2)
       \<lparr>wq := (wq (demo_world r 2))\<lparr>wq_work := Some 1, wq_tail := Some 2\<rparr>,
        heap := fmupd 1 \<lparr>wreq_work = Some 1, wreq_work_data = 10, wreq_next = Some 2\<rparr>
                  demo_heap\<rparr>"

section \<open>Properties\<close>

declare eventfs_wq_main_batch.simps [simp del]
declare eventfs_wq_queue_free.simps [simp del]

subsection \<open>Chains in the store\<close>

lemma chain_None [simp]: "chain h None as = (as = [])"
  by (cases as) auto

lemma chain_determ: "chain h p as \<Longrightarrow> chain h p bs \<Longrightarrow> as = bs"
proof (induction as arbitrary: p bs)
  case Nil
  then show ?case by simp
next
  case (Cons a as)
  then show ?case
    by (cases bs) (auto split: option.splits)
qed

lemma chain_length_suffix:
  "chain h p (as @ a # bs) \<Longrightarrow> chain h (Some a) (a # bs)"
proof (induction as arbitrary: p)
  case Nil
  then show ?case by simp
next
  case (Cons b as)
  then obtain n :: eventfs_wreq where "chain h (wreq_next n) (as @ a # bs)"
    by (auto split: option.splits)
  then show ?case by (rule Cons.IH)
qed

lemma chain_distinct: "chain h p as \<Longrightarrow> distinct as"
proof (induction as arbitrary: p)
  case Nil
  then show ?case by simp
next
  case (Cons a as)
  then obtain n where n: "fmlookup h a = Some n" and tl: "chain h (wreq_next n) as"
    by (auto split: option.splits)
  have "a \<notin> set as"
  proof
    assume "a \<in> set as"
    then obtain bs cs where as: "as = bs @ a # cs"
      by (auto simp: in_set_conv_decomp)
    with tl have "chain h (Some a) (a # cs)"
      by (auto dest: chain_length_suffix)
    moreover from Cons.prems have "chain h (Some a) (a # as)"
      by simp
    ultimately have "a # cs = a # as"
      by (rule chain_determ)
    with as show False by simp
  qed
  with Cons.IH [OF tl] show ?case by simp
qed

lemma chain_fmupd_notin: "a \<notin> set as \<Longrightarrow> chain (fmupd a n h) p as = chain h p as"
  by (induction as arbitrary: p) (auto split: option.splits)

lemma chain_fmdrop_notin: "a \<notin> set as \<Longrightarrow> chain (fmdrop a h) p as = chain h p as"
  by (induction as arbitrary: p) (auto split: option.splits)

lemma chain_snoc:
  "chain h p as \<Longrightarrow> as \<noteq> [] \<Longrightarrow> fmlookup h (last as) = Some n \<Longrightarrow> a \<notin> set as \<Longrightarrow>
   fmlookup h a = Some m \<Longrightarrow> wreq_next m = None \<Longrightarrow>
   chain (fmupd (last as) (n\<lparr>wreq_next := Some a\<rparr>) h) p (as @ [a])"
proof (induction as arbitrary: p)
  case Nil
  then show ?case by simp
next
  case (Cons b bs)
  from Cons.prems(1) have d: "distinct (b # bs)"
    by (rule chain_distinct)
  show ?case
  proof (cases "bs = []")
    case True
    with Cons.prems show ?thesis
      by (auto split: option.splits)
  next
    case False
    with d have "last bs \<noteq> b"
      by (metis distinct.simps(2) last_in_set)
    with Cons False show ?thesis
      by (auto split: option.splits)
  qed
qed

lemma chain_last_allocated:
  "chain h p as \<Longrightarrow> as \<noteq> [] \<Longrightarrow> \<exists>n. fmlookup h (last as) = Some n \<and> wreq_next n = None"
  by (induction as arbitrary: p) (auto split: option.splits)

subsection \<open>The two loops over a chain\<close>

lemma batch_None [simp]: "eventfs_wq_main_batch cbs None w = Inr w"
  by (simp add: eventfs_wq_main_batch.simps)

lemma queue_free_None [simp]: "eventfs_wq_queue_free None w = Inr (0, w)"
  by (simp add: eventfs_wq_queue_free.simps)

lemma callable_Cons:
  "callable h (a # as) =
     ((\<exists>n f. fmlookup h a = Some n \<and> wreq_work n = Some f) \<and> callable h as)"
  by (auto simp: callable_def split: option.splits)

lemma callable_fmdrop_notin: "a \<notin> set as \<Longrightarrow> callable (fmdrop a h) as = callable h as"
  by (induction as) (auto simp: callable_def)

lemma batch_trace_fmdrop_notin:
  "a \<notin> set as \<Longrightarrow> batch_trace cbs (fmdrop a h) as u = batch_trace cbs h as u"
  by (induction as arbitrary: u) (auto split: option.splits prod.splits)

lemma release_node_eq:
  "release_node a n w = w\<lparr>heap := fmdrop a (heap w), trace := trace w @ [Release a]\<rparr>"
  by (simp add: release_node_def eventfs_safe_free_def log_event_def fmdrop_fmupd_same)

lemma batch_chain:
  "chain (heap w) p as \<Longrightarrow> callable (heap w) as \<Longrightarrow>
   eventfs_wq_main_batch cbs p w =
     Inr (w\<lparr>heap := fmdrop_set (set as) (heap w),
            user := snd (batch_trace cbs (heap w) as (user w)),
            trace := trace w @ fst (batch_trace cbs (heap w) as (user w))\<rparr>)"
proof (induction as arbitrary: p w)
  case Nil
  then show ?case by simp
next
  case (Cons a as)
  from Cons.prems(1) have d: "a \<notin> set as"
    using chain_distinct by fastforce
  from Cons.prems obtain n f where p: "p = Some a" and n: "fmlookup (heap w) a = Some n"
    and f: "wreq_work n = Some f" and tl: "chain (heap w) (wreq_next n) as"
    and ctl: "callable (heap w) as"
    by (auto simp: callable_Cons)
  obtain rc u where cb: "cbs f a (wreq_work_data n) (user w) = (rc, u)"
    by (cases "cbs f a (wreq_work_data n) (user w)")
  define w2 where "w2 = w\<lparr>user := u,
      trace := trace w @ Invoke f a (wreq_work_data n) # (if rc \<noteq> 0 then [Report_work f rc] else [])\<rparr>"
  define w3 where "w3 = release_node a n w2"
  have step: "eventfs_wq_main_batch cbs p w = eventfs_wq_main_batch cbs (wreq_next n) w3"
    by (subst eventfs_wq_main_batch.simps)
       (simp add: p n f cb w2_def w3_def log_event_def)
  have h3: "heap w3 = fmdrop a (heap w)"
    by (simp add: w3_def w2_def release_node_eq)
  have "chain (heap w3) (wreq_next n) as" and "callable (heap w3) as"
    using tl ctl d by (simp_all add: h3 chain_fmdrop_notin callable_fmdrop_notin)
  from Cons.IH [OF this] have
    "eventfs_wq_main_batch cbs (wreq_next n) w3 =
       Inr (w3\<lparr>heap := fmdrop_set (set as) (heap w3),
              user := snd (batch_trace cbs (heap w3) as (user w3)),
              trace := trace w3 @ fst (batch_trace cbs (heap w3) as (user w3))\<rparr>)" .
  also have "batch_trace cbs (heap w3) as (user w3) = batch_trace cbs (heap w) as u"
    using d by (simp add: h3 batch_trace_fmdrop_notin) (simp add: w3_def w2_def release_node_eq)
  finally show ?case
    by (simp add: step h3 n f cb w3_def w2_def release_node_eq split: prod.splits)
qed

lemma queue_free_chain:
  "chain (heap w) p as \<Longrightarrow>
   eventfs_wq_queue_free p w =
     Inr (0, w\<lparr>heap := fmdrop_set (set as) (heap w), trace := trace w @ map Release as\<rparr>)"
proof (induction as arbitrary: p w)
  case Nil
  then show ?case by simp
next
  case (Cons a as)
  from Cons.prems(1) have d: "a \<notin> set as"
    using chain_distinct by fastforce
  from Cons.prems obtain n where p: "p = Some a" and n: "fmlookup (heap w) a = Some n"
    and tl: "chain (heap w) (wreq_next n) as"
    by (auto split: option.splits)
  have step: "eventfs_wq_queue_free p w = eventfs_wq_queue_free (wreq_next n) (release_node a n w)"
    by (subst eventfs_wq_queue_free.simps) (simp add: p n)
  have "chain (heap (release_node a n w)) (wreq_next n) as"
    using tl d by (simp add: release_node_eq chain_fmdrop_notin)
  from Cons.IH [OF this] show ?case
    by (simp add: step release_node_eq)
qed

lemma invoked_append: "invoked (es @ fs) = invoked es @ invoked fs"
  by (induction es rule: invoked.induct) simp_all

lemma invoked_batch_trace:
  "callable h as \<Longrightarrow> invoked (fst (batch_trace cbs h as u)) = as"
  by (induction as arbitrary: u) (auto simp: callable_Cons case_prod_beta)

subsection \<open>Enqueue and the worker on a well-formed queue\<close>

text \<open>The count and \<^verbatim>\<open>errno\<close> after a \<^verbatim>\<open>sem_post\<close> whose result is dropped.\<close>

lemma sem_post_count:
  "fst (snd (sem_post c en)) = (if c < SEM_VALUE_MAX then c + 1 else c)"
  by (simp add: sem_post_def)

lemma sem_post_errno:
  "snd (snd (sem_post c en)) = (if c < SEM_VALUE_MAX then en else EOVERFLOW)"
  by (simp add: sem_post_def)

lemma sem_post_positive: "0 < fst (snd (sem_post c en))"
  by (simp add: sem_post_def SEM_VALUE_MAX_def)

lemma add_empty:
  "wq_work (wq w) = None \<Longrightarrow>
   eventfs_wq_add wreq w =
     Inr (0, w\<lparr>wq := (wq w)\<lparr>wq_work := wreq, wq_tail := wreq,
                  wq_work_sem := fst (snd (sem_post (wq_work_sem (wq w)) (errno w)))\<rparr>,
               errno := snd (snd (sem_post (wq_work_sem (wq w)) (errno w)))\<rparr>)"
  by (simp add: eventfs_wq_add_def case_prod_beta)

lemma add_nonempty:
  "wq_work (wq w) \<noteq> None \<Longrightarrow> wq_tail (wq w) = Some t \<Longrightarrow> fmlookup (heap w) t = Some n \<Longrightarrow>
   eventfs_wq_add wreq w =
     Inr (0, w\<lparr>heap := fmupd t (n\<lparr>wreq_next := wreq\<rparr>) (heap w),
               wq := (wq w)\<lparr>wq_tail := wreq,
                 wq_work_sem := fst (snd (sem_post (wq_work_sem (wq w)) (errno w)))\<rparr>,
               errno := snd (snd (sem_post (wq_work_sem (wq w)) (errno w)))\<rparr>)"
  by (auto simp: eventfs_wq_add_def case_prod_beta)

lemma callable_Nil [simp]: "callable h []"
  by (simp add: callable_def)

lemma fresh_Nil [simp]: "fresh h []"
  by (simp add: fresh_def)

lemma fresh_Cons:
  "fresh h (a # as) =
     ((\<exists>n f. fmlookup h a = Some n \<and> wreq_work n = Some f \<and> wreq_next n = None) \<and> fresh h as)"
  by (auto simp: fresh_def split: option.splits)

lemma fresh_callable: "fresh h as \<Longrightarrow> callable h as"
  by (induction as) (auto simp: fresh_Cons callable_Cons)

lemma callable_append: "callable h (as @ bs) = (callable h as \<and> callable h bs)"
  by (simp add: callable_def)

lemma callable_relink:
  "fmlookup h t = Some n \<Longrightarrow> callable (fmupd t (n\<lparr>wreq_next := x\<rparr>) h) as = callable h as"
  by (induction as) (auto simp: callable_def)

lemma fresh_fmupd_notin: "t \<notin> set as \<Longrightarrow> fresh (fmupd t n h) as = fresh h as"
  by (induction as) (auto simp: fresh_def)

lemma fresh_fmdrop_set: "set as \<inter> A = {} \<Longrightarrow> fresh (fmdrop_set A h) as = fresh h as"
  by (induction as) (auto simp: fresh_def)

text \<open>Enqueuing a fresh request at the end of a well-formed queue.\<close>

lemma add_pending:
  assumes p: "pending w as" and f: "fresh (heap w) [a]" and a: "a \<notin> set as"
  shows "\<exists>w'. eventfs_wq_add (Some a) w = Inr (0, w') \<and> pending w' (as @ [a])
           \<and> wq_work_sem (wq w') = fst (snd (sem_post (wq_work_sem (wq w)) (errno w)))
           \<and> wq_running (wq w') = wq_running (wq w)
           \<and> trace w' = trace w \<and> user w' = user w
           \<and> callable (heap w') as = callable (heap w) as
           \<and> callable (heap w') [a]
           \<and> (\<forall>bs. set bs \<inter> set as = {} \<longrightarrow> fresh (heap w') bs = fresh (heap w) bs)"
proof (cases "as = []")
  case True
  with p have "wq_work (wq w) = None"
    by (simp add: pending_def)
  from add_empty [OF this, of "Some a"] True p f show ?thesis
    by (auto simp: pending_def fresh_Cons callable_Cons split: option.splits)
next
  case False
  with p have hd: "wq_work (wq w) \<noteq> None" and tl: "wq_tail (wq w) = Some (last as)"
    and ch: "chain (heap w) (wq_work (wq w)) as"
    by (cases as; simp add: pending_def)+
  from chain_last_allocated [OF ch False] obtain n
    where n: "fmlookup (heap w) (last as) = Some n"
    by blast
  from f obtain m where m: "fmlookup (heap w) a = Some m" "wreq_next m = None"
      "wreq_work m \<noteq> None"
    by (auto simp: fresh_Cons)
  have la: "last as \<noteq> a"
    using a False by (metis last_in_set)
  have "chain (fmupd (last as) (n\<lparr>wreq_next := Some a\<rparr>) (heap w)) (wq_work (wq w)) (as @ [a])"
    using ch False n a m(1,2) by (rule chain_snoc)
  moreover have "\<And>bs. set bs \<inter> set as = {} \<Longrightarrow>
      fresh (fmupd (last as) (n\<lparr>wreq_next := Some a\<rparr>) (heap w)) bs = fresh (heap w) bs"
    using False by (intro fresh_fmupd_notin) (metis disjoint_iff last_in_set)
  moreover have "callable (fmupd (last as) (n\<lparr>wreq_next := Some a\<rparr>) (heap w)) [a]"
    using m la by (simp add: callable_def)
  ultimately show ?thesis
    using add_nonempty [OF hd tl n, of "Some a"] n
    by (simp add: pending_def callable_relink)
qed

lemma work_stopped:
  "\<not> wq_running (wq w) \<Longrightarrow> eventfs_wq_main_work cbs w = Inr (Exited, w)"
  by (simp add: eventfs_wq_main_work_def)

lemma work_running:
  assumes "wq_running (wq w)" and "pending w as" and "callable (heap w) as"
  shows "eventfs_wq_main_work cbs w =
     Inr (Looping,
          w\<lparr>wq := (wq w)\<lparr>wq_work := None, wq_tail := None\<rparr>,
            heap := fmdrop_set (set as) (heap w),
            user := snd (batch_trace cbs (heap w) as (user w)),
            trace := trace w @ fst (batch_trace cbs (heap w) as (user w))\<rparr>)"
proof -
  define w1 where "w1 = w\<lparr>wq := (wq w)\<lparr>wq_work := None, wq_tail := None\<rparr>\<rparr>"
  have "chain (heap w1) (wq_work (wq w)) as" and "callable (heap w1) as"
    using assms by (simp_all add: w1_def pending_def)
  from batch_chain [OF this, of cbs] show ?thesis
    using assms(1) by (simp add: eventfs_wq_main_work_def w1_def)
qed

lemma work_effect:
  assumes "pending w as" and "callable (heap w) as"
    and "heap w0 = heap w" and "invoked (trace w0) = invoked (trace w)"
    and "wq_work (wq w0) = wq_work (wq w)" and "wq_tail (wq w0) = wq_tail (wq w)"
  shows "\<exists>pc' w'. eventfs_wq_main_work cbs w = Inr (pc', w') \<and> (untouched w0 w' \<or> drained as w0 w')"
proof (cases "wq_running (wq w)")
  case True
  from work_running [OF True assms(1,2), of cbs] assms show ?thesis
    by (simp add: drained_def invoked_append invoked_batch_trace)
next
  case False
  with assms show ?thesis
    by (simp add: work_stopped untouched_def)
qed

lemma wait_effect:
  assumes "pending w as" and "callable (heap w) as"
    and "heap w0 = heap w" and "invoked (trace w0) = invoked (trace w)"
    and "wq_work (wq w0) = wq_work (wq w)" and "wq_tail (wq w0) = wq_tail (wq w)"
  shows "\<exists>pc' w'. eventfs_wq_main_wait cbs env w = Inr (pc', w') \<and> (untouched w0 w' \<or> drained as w0 w')"
proof (cases "sem_wait (wait_err env) (wq_work_sem (wq w)) (errno w)")
  case None
  with assms show ?thesis
    by (simp add: eventfs_wq_main_wait_def untouched_def)
next
  case (Some r)
  obtain rc c en where r: "r = (rc, c, en)"
    by (cases r)
  define w1 where "w1 = w\<lparr>wq := (wq w)\<lparr>wq_work_sem := c\<rparr>, errno := en\<rparr>"
  have "pending w1 as" "callable (heap w1) as" "heap w0 = heap w1"
    "invoked (trace w0) = invoked (trace w1)"
    "wq_work (wq w0) = wq_work (wq w1)" "wq_tail (wq w0) = wq_tail (wq w1)"
    using assms by (simp_all add: w1_def pending_def)
  from work_effect [OF this, of cbs] show ?thesis
    by (simp add: eventfs_wq_main_wait_def Some r w1_def)
qed

lemma iter_effect:
  assumes "pending w as" and "callable (heap w) as"
  shows "\<exists>pc' w'. eventfs_wq_main_iter cbs env w = Inr (pc', w') \<and> (untouched w w' \<or> drained as w w')"
proof (cases "wq_running (wq w)")
  case False
  then show ?thesis
    by (simp add: eventfs_wq_main_iter_def untouched_def)
next
  case True
  obtain rc c en where r: "sem_trywait (trywait_err env) (wq_work_sem (wq w)) (errno w) = (rc, c, en)"
    by (cases "sem_trywait (trywait_err env) (wq_work_sem (wq w)) (errno w)")
  define w1 where "w1 = w\<lparr>wq := (wq w)\<lparr>wq_work_sem := c\<rparr>, errno := en\<rparr>"
  have w1: "pending w1 as" "callable (heap w1) as" "heap w = heap w1"
    "invoked (trace w) = invoked (trace w1)"
    "wq_work (wq w) = wq_work (wq w1)" "wq_tail (wq w) = wq_tail (wq w1)"
    using assms by (simp_all add: w1_def pending_def)
  have it: "eventfs_wq_main_iter cbs env w =
      (if rc \<noteq> 0 then
         if - errno w1 = - EAGAIN then eventfs_wq_main_wait cbs env w1
         else Inr (Exited, log_event (Report_fatal (- errno w1)) w1)
       else eventfs_wq_main_work cbs w1)"
    using True by (simp add: eventfs_wq_main_iter_def r w1_def Let_def)
  show ?thesis
  proof (cases "rc \<noteq> 0")
    case False
    with work_effect [OF w1, of cbs] it show ?thesis by simp
  next
    case rc: True
    show ?thesis
    proof (cases "- errno w1 = - EAGAIN")
      case True
      with wait_effect [OF w1, of cbs env] it rc show ?thesis by simp
    next
      case False
      with it rc show ?thesis
        by (simp add: untouched_def log_event_def w1_def invoked_append)
    qed
  qed
qed

lemma step_effect:
  assumes "pending w as" and "callable (heap w) as"
  shows "\<exists>pc' w'. eventfs_wq_main_step cbs env (pc, w) = Inr (pc', w')
           \<and> (untouched w w' \<or> drained as w w')"
proof (cases pc)
  case Looping
  with iter_effect [OF assms, of cbs env] show ?thesis
    by (simp add: eventfs_wq_main_step_def)
next
  case Blocked
  with wait_effect [OF assms refl refl refl refl, of cbs env] show ?thesis
    by (simp add: eventfs_wq_main_step_def)
next
  case Exited
  then show ?thesis
    by (simp add: eventfs_wq_main_step_def untouched_def)
qed

subsection \<open>Runs of producers and worker\<close>

lemma untouched_pending: "untouched w w' \<Longrightarrow> pending w' as = pending w as"
  by (simp add: untouched_def pending_def)

lemma drained_pending: "drained as w w' \<Longrightarrow> pending w' []"
  by (simp add: drained_def pending_def)

lemma run_fifo:
  assumes "pending w as" and "callable (heap w) as" and "fresh (heap w) (adds acts)"
    and "distinct (adds acts)" and "set (adds acts) \<inter> set as = {}"
  shows "\<exists>pc' w' served pend. sys_run cbs acts (pc, w) = Inr (pc', w')
           \<and> pending w' pend \<and> callable (heap w') pend
           \<and> invoked (trace w') = invoked (trace w) @ served
           \<and> served @ pend = as @ adds acts"
  using assms
proof (induction acts arbitrary: pc w as)
  case Nil
  then show ?case by simp
next
  case (Cons act acts)
  show ?case
  proof (cases act)
    case (Add a)
    from Cons.prems Add have a: "a \<notin> set as" "a \<notin> set (adds acts)" "distinct (adds acts)"
      and fa: "fresh (heap w) [a]" and fr: "fresh (heap w) (adds acts)"
      and dj: "set (adds acts) \<inter> set as = {}"
      by (auto simp: fresh_Cons)
    from add_pending [OF Cons.prems(1) fa a(1)] obtain w1 where
      w1: "eventfs_wq_add (Some a) w = Inr (0, w1)" "pending w1 (as @ [a])"
        "trace w1 = trace w" "callable (heap w1) as = callable (heap w) as"
        "callable (heap w1) [a]"
        "\<forall>bs. set bs \<inter> set as = {} \<longrightarrow> fresh (heap w1) bs = fresh (heap w) bs"
      by blast
    have "callable (heap w1) (as @ [a])"
      using w1(4,5) Cons.prems(2) by (simp add: callable_append)
    moreover have "fresh (heap w1) (adds acts)"
      using w1(6) dj fr by simp
    moreover have "set (adds acts) \<inter> set (as @ [a]) = {}"
      using dj a(2) by auto
    ultimately obtain pc' w' served pend where
      "sys_run cbs acts (pc, w1) = Inr (pc', w')" "pending w' pend" "callable (heap w') pend"
      "invoked (trace w') = invoked (trace w1) @ served" "served @ pend = (as @ [a]) @ adds acts"
      using Cons.IH [OF w1(2) _ _ a(3), of pc] by blast
    with w1(1,3) Add show ?thesis
      by (auto simp: sys_step_def)
  next
    case (Work env)
    from step_effect [OF Cons.prems(1,2), of cbs env pc] obtain pc1 w1 where
      st: "eventfs_wq_main_step cbs env (pc, w) = Inr (pc1, w1)"
      and eff: "untouched w w1 \<or> drained as w w1"
      by blast
    from eff show ?thesis
    proof
      assume u: "untouched w w1"
      then have "pending w1 as" "callable (heap w1) as" "fresh (heap w1) (adds acts)"
        using Cons.prems Work by (simp_all add: untouched_pending) (simp_all add: untouched_def)
      from Cons.IH [OF this, of pc1] Cons.prems Work obtain pc' w' served pend where
        "sys_run cbs acts (pc1, w1) = Inr (pc', w')" "pending w' pend" "callable (heap w') pend"
        "invoked (trace w') = invoked (trace w1) @ served" "served @ pend = as @ adds acts"
        by auto
      with st u Work show ?thesis
        by (auto simp: sys_step_def untouched_def)
    next
      assume d: "drained as w w1"
      then have "pending w1 []" "callable (heap w1) []"
        by (simp_all add: drained_pending)
      moreover have "fresh (heap w1) (adds acts)"
        using d Cons.prems Work by (simp add: drained_def fresh_fmdrop_set)
      ultimately obtain pc' w' served pend where
        "sys_run cbs acts (pc1, w1) = Inr (pc', w')" "pending w' pend" "callable (heap w') pend"
        "invoked (trace w') = invoked (trace w1) @ served" "served @ pend = [] @ adds acts"
        using Cons.IH [of w1 "[]" pc1] Cons.prems Work by auto
      with st d Work have "sys_run cbs (act # acts) (pc, w) = Inr (pc', w')" "pending w' pend"
        "callable (heap w') pend" "invoked (trace w') = invoked (trace w) @ (as @ served)"
        "(as @ served) @ pend = as @ adds (act # acts)"
        by (simp_all add: sys_step_def drained_def)
      then show ?thesis by blast
    qed
  qed
qed

subsection \<open>What the loops leave alone\<close>

lemma batch_wq: "eventfs_wq_main_batch cbs p w = Inr w' \<Longrightarrow> wq w' = wq w"
proof (induction cbs p w rule: eventfs_wq_main_batch.induct)
  case (1 cbs work_itr w)
  show ?case
  proof (cases work_itr)
    case None
    with "1.prems" show ?thesis by simp
  next
    case (Some a)
    with "1.prems" obtain n f where n: "fmlookup (heap w) a = Some n"
      and f: "wreq_work n = Some f"
      by (subst (asm) eventfs_wq_main_batch.simps) (auto split: option.splits)
    obtain rc u where cb: "cbs f a (wreq_work_data n) (user w) = (rc, u)"
      by (cases "cbs f a (wreq_work_data n) (user w)")
    define w1 where "w1 = log_event (Invoke f a (wreq_work_data n)) (w\<lparr>user := u\<rparr>)"
    define w2 where "w2 = (if rc \<noteq> 0 then log_event (Report_work f rc) w1 else w1)"
    from "1.prems" have "eventfs_wq_main_batch cbs (wreq_next n) (release_node a n w2) = Inr w'"
      by (subst (asm) eventfs_wq_main_batch.simps) (auto simp: Some n f cb w1_def w2_def Let_def)
    from "1.IH" [OF Some n f refl cb [symmetric] w1_def w2_def this]
    show ?thesis
      by (simp add: release_node_eq w2_def w1_def log_event_def)
  qed
qed

lemma queue_free_wq: "eventfs_wq_queue_free p w = Inr (rc, w') \<Longrightarrow> wq w' = wq w"
proof (induction p w rule: eventfs_wq_queue_free.induct)
  case (1 wqueue w)
  show ?case
  proof (cases wqueue)
    case None
    with "1.prems" show ?thesis by simp
  next
    case (Some a)
    with "1.prems" obtain n where n: "fmlookup (heap w) a = Some n"
      by (subst (asm) eventfs_wq_queue_free.simps) (auto split: option.splits)
    from "1.prems" have "eventfs_wq_queue_free (wreq_next n) (release_node a n w) = Inr (rc, w')"
      by (subst (asm) eventfs_wq_queue_free.simps) (simp add: Some n)
    from "1.IH" [OF Some n this] show ?thesis
      by (simp add: release_node_eq)
  qed
qed

lemma released_append: "released (es @ fs) = released es @ released fs"
  by (induction es rule: released.induct) simp_all

lemma released_batch_trace:
  "callable h as \<Longrightarrow> released (fst (batch_trace cbs h as u)) = as"
  by (induction as arbitrary: u) (auto simp: callable_Cons case_prod_beta)

lemma invoked_map_Release [simp]: "invoked (map Release as) = []"
  by (induction as) simp_all

lemma work_inv:
  "eventfs_wq_main_work cbs w = Inr (pc', w') \<Longrightarrow> head_tail_inv (wq w) \<Longrightarrow> head_tail_inv (wq w')"
  by (auto simp: eventfs_wq_main_work_def head_tail_inv_def Let_def
           split: if_splits sum.splits dest!: batch_wq)

lemma wait_inv:
  "eventfs_wq_main_wait cbs env w = Inr (pc', w') \<Longrightarrow> head_tail_inv (wq w) \<Longrightarrow> head_tail_inv (wq w')"
  by (auto simp: eventfs_wq_main_wait_def split: option.splits dest!: work_inv)
     (simp add: head_tail_inv_def)

lemma iter_inv:
  "eventfs_wq_main_iter cbs env w = Inr (pc', w') \<Longrightarrow> head_tail_inv (wq w) \<Longrightarrow> head_tail_inv (wq w')"
  by (auto simp: eventfs_wq_main_iter_def Let_def log_event_def
           split: if_splits prod.splits dest!: work_inv wait_inv)
     (simp_all add: head_tail_inv_def)

lemma add_lookup_notin:
  assumes "pending w as" and "a \<notin> set as" and "eventfs_wq_add x w = Inr (rc, w')"
  shows "fmlookup (heap w') a = fmlookup (heap w) a"
proof (cases "as = []")
  case True
  with assms(1) have "wq_work (wq w) = None"
    by (simp add: pending_def)
  from add_empty [OF this, of x] assms(3) show ?thesis by auto
next
  case False
  with assms have hd: "wq_work (wq w) \<noteq> None" and tl: "wq_tail (wq w) = Some (last as)"
    and ch: "chain (heap w) (wq_work (wq w)) as"
    by (cases as; simp add: pending_def)+
  from chain_last_allocated [OF ch False] obtain n
    where n: "fmlookup (heap w) (last as) = Some n"
    by blast
  have "last as \<noteq> a"
    using assms(2) False by (metis last_in_set)
  with add_nonempty [OF hd tl n, of x] assms(3) show ?thesis by auto
qed

lemma callable_fmupd_notin: "a \<notin> set as \<Longrightarrow> callable (fmupd a n h) as = callable h as"
  by (induction as) (auto simp: callable_def)

lemma batch_trace_append:
  "fst (batch_trace cbs h (as @ [a]) u) =
     (if callable h as
      then fst (batch_trace cbs h as u) @ fst (batch_trace cbs h [a] (snd (batch_trace cbs h as u)))
      else fst (batch_trace cbs h as u))"
  by (induction as arbitrary: u) (auto simp: callable_Cons case_prod_beta split: option.splits)

lemma no_invoke_of_notin:
  "a \<notin> set as \<Longrightarrow> filter (is_invoke_of a) (fst (batch_trace cbs h as u)) = []"
  by (induction as arbitrary: u) (auto simp: case_prod_beta split: option.splits)

lemma fresh_allocated: "fresh h as \<Longrightarrow> a \<in> set as \<Longrightarrow> fmlookup h a \<noteq> None"
  by (induction as) (auto simp: fresh_Cons)

subsection \<open>The worker on a queue that is not running, and on failing waits\<close>


lemma trywait_fatal_exits:
  assumes "wq_running (wq w)" and "trywait_err env = Some e" and "e \<noteq> EAGAIN"
  shows "eventfs_wq_main_iter cbs env w =
           Inr (Exited, w\<lparr>errno := e, trace := trace w @ [Report_fatal (- e)]\<rparr>)"
  using assms
  by (simp add: eventfs_wq_main_iter_def sem_trywait_def log_event_def)

lemma wait_error_ignored:
  assumes "wq_running (wq w)" and "trywait_err env = None" and "wq_work_sem (wq w) = 0"
    and "wait_err env = Some e"
  shows "eventfs_wq_main_iter cbs env w = eventfs_wq_main_work cbs (w\<lparr>errno := e\<rparr>)"
proof -
  have "(wq w)\<lparr>wq_work_sem := 0\<rparr> = wq w"
    using assms(3) by (cases "wq w") simp
  then have eq: "w\<lparr>wq := (wq w)\<lparr>wq_work_sem := 0\<rparr>, errno := e\<rparr> = w\<lparr>errno := e\<rparr>"
    by simp
  from assms have "eventfs_wq_main_iter cbs env w =
      eventfs_wq_main_work cbs (w\<lparr>wq := (wq w)\<lparr>wq_work_sem := 0\<rparr>, errno := e\<rparr>)"
    by (simp add: eventfs_wq_main_iter_def eventfs_wq_main_wait_def sem_trywait_def sem_wait_def)
  then show ?thesis
    by (simp only: eq)
qed

lemma start_create_failure:
  assumes "\<not> wq_running (wq w)" and "fst created \<noteq> 0"
  shows "eventfs_wq_start created w =
           (- errno w,
            w\<lparr>wq := (wq w)\<lparr>wq_running := False\<rparr>,
              trace := trace w @ [Report_create (- errno w)]\<rparr>)"
  using assms
  by (simp add: eventfs_wq_start_def log_event_def Let_def)

subsection \<open>Unfolding the concrete world\<close>

lemmas demo_defs = demo_world_def demo_heap_def demo_cbs_def demo_env_def zero_wq_def
  zero_wreq_def eventfs_wreq_init_def demo_queued_def

subsection \<open>Runs after the worker has returned\<close>


section \<open>The claims\<close>

subsection \<open>Order and round trip\<close>

text \<open>
  C1. Start from a well-formed queue holding the requests at \<open>as\<close>, and let producers and
  the worker act in any order, the producers enqueuing distinct initialised requests that
  are not in the queue. The run goes through without a fault, and at its end the
  requests whose callbacks the worker has invoked during the run, in the order of the
  invocations, followed by the requests still in the chain, head first, are the requests
  first in the queue followed by the enqueued ones in the order of their enqueuing. So a
  request enqueued before another is invoked before it, and none is invoked twice.
\<close>

theorem fifo_order:
  assumes "pending w as" and "callable (heap w) as" and "fresh (heap w) (adds acts)"
    and "distinct (adds acts)" and "set (adds acts) \<inter> set as = {}"
  shows "\<exists>pc' w' served pend. sys_run cbs acts (pc, w) = Inr (pc', w')
           \<and> pending w' pend
           \<and> invoked (trace w') = invoked (trace w) @ served
           \<and> served @ pend = as @ adds acts"
  using run_fifo [OF assms, of cbs pc] by blast

theorem fifo_order_witness:
  "pending (demo_world True 0) [] \<and> callable (heap (demo_world True 0)) []
   \<and> fresh (heap (demo_world True 0)) (adds [Add 1, Add 2, Work demo_env])
   \<and> distinct (adds [Add 1, Add 2, Work demo_env])
   \<and> set (adds [Add 1, Add 2, Work demo_env]) \<inter> set [] = {}
   \<and> (\<exists>pc' w' served pend.
         sys_run demo_cbs [Add 1, Add 2, Work demo_env] (Looping, demo_world True 0) = Inr (pc', w')
         \<and> pending w' pend
         \<and> invoked (trace w') = invoked (trace (demo_world True 0)) @ served
         \<and> served @ pend = [] @ adds [Add 1, Add 2, Work demo_env])
   \<and> sys_run demo_cbs [Add 1, Add 2, Work demo_env] (Looping, demo_world True 0) =
       Inr (Looping, (demo_world True 1)\<lparr>heap := fmdrop_set {1, 2} demo_heap,
              trace := [Invoke 1 1 10, Report_work 1 5, Release 1, Invoke 0 2 20, Release 2]\<rparr>)"
proof -
  have h: "pending (demo_world True 0) []" "callable (heap (demo_world True 0)) []"
    "fresh (heap (demo_world True 0)) (adds [Add 1, Add 2, Work demo_env])"
    "distinct (adds [Add 1, Add 2, Work demo_env])"
    "set (adds [Add 1, Add 2, Work demo_env]) \<inter> set [] = {}"
    by (simp_all add: pending_def fresh_def demo_defs)
  have e: "sys_run demo_cbs [Add 1, Add 2, Work demo_env] (Looping, demo_world True 0) =
       Inr (Looping, (demo_world True 1)\<lparr>heap := fmdrop_set {1, 2} demo_heap,
              trace := [Invoke 1 1 10, Report_work 1 5, Release 1, Invoke 0 2 20, Release 2]\<rparr>)"
    by (simp add: sys_step_def eventfs_wq_main_step_def eventfs_wq_main_iter_def
      eventfs_wq_main_work_def eventfs_wq_add_def sem_trywait_def sem_post_def SEM_VALUE_MAX_def
      eventfs_wq_main_batch.simps release_node_eq log_event_def demo_defs fmdrop_fmupd)
  from fifo_order [OF h, of demo_cbs Looping] h e show ?thesis
    by blast
qed

text \<open>
  C2. On a running, well-formed queue: initialise the request at the allocated address
  \<open>a\<close> with \<^verbatim>\<open>eventfs_wreq_init\<close> for the callback \<open>C\<close> and the payload \<open>P\<close>, enqueue it with
  \<^verbatim>\<open>eventfs_wq_add\<close>, and let the worker run one iteration in which \<^verbatim>\<open>sem_trywait\<close> is not made
  to fail. The enqueue returns 0; the iteration ends at the top of the loop; among the
  events it adds to the trace there is exactly one invocation with the handle \<open>a\<close>, and
  it is the invocation of \<open>C\<close> with \<open>a\<close> and \<open>P\<close>; the last event is the release of \<open>a\<close>, which
  is no longer in the store, and the chain is empty. Whatever producers and worker do
  afterwards with distinct initialised requests, the number of invocations with the
  handle \<open>a\<close> does not change.
\<close>

theorem round_trip:
  assumes run: "wq_running (wq w)" and pen: "pending w as" and cal: "callable (heap w) as"
    and old: "fmlookup (heap w) a = Some old" and new: "a \<notin> set as"
    and env: "trywait_err env = None"
  shows "\<exists>w2 w3 es.
           eventfs_wq_add (Some a)
             (w\<lparr>heap := fmupd a (snd (eventfs_wreq_init old (Some C) P)) (heap w)\<rparr>) = Inr (0, w2)
         \<and> eventfs_wq_main_iter cbs env w2 = Inr (Looping, w3)
         \<and> trace w3 = trace w @ es
         \<and> filter (is_invoke_of a) es = [Invoke C a P]
         \<and> last es = Release a
         \<and> fmlookup (heap w3) a = None
         \<and> pending w3 []
         \<and> (\<forall>acts pc. fresh (heap w3) (adds acts) \<and> distinct (adds acts) \<longrightarrow>
               (\<exists>pc' w4. sys_run cbs acts (pc, w3) = Inr (pc', w4)
                  \<and> count_list (invoked (trace w4)) a = count_list (invoked (trace w3)) a))"
proof -
  define node where "node = snd (eventfs_wreq_init old (Some C) P)"
  define w1 where "w1 = w\<lparr>heap := fmupd a node (heap w)\<rparr>"
  have node: "wreq_work node = Some C" "wreq_work_data node = P" "wreq_next node = None"
    by (simp_all add: node_def eventfs_wreq_init_def zero_wreq_def)
  have p1: "pending w1 as" and c1: "callable (heap w1) as" and f1: "fresh (heap w1) [a]"
    using pen cal new node
    by (simp_all add: w1_def pending_def chain_fmupd_notin callable_fmupd_notin fresh_def)
  from add_pending [OF p1 f1 new] obtain w2 where
    w2: "eventfs_wq_add (Some a) w1 = Inr (0, w2)" "pending w2 (as @ [a])"
      "wq_work_sem (wq w2) = fst (snd (sem_post (wq_work_sem (wq w1)) (errno w1)))"
      "wq_running (wq w2) = wq_running (wq w1)" "trace w2 = trace w1" "user w2 = user w1"
      "callable (heap w2) as = callable (heap w1) as" "callable (heap w2) [a]"
    by blast
  have a2: "fmlookup (heap w2) a = Some node"
    using add_lookup_notin [OF p1 new w2(1)] by (simp add: w1_def)
  have c2: "callable (heap w2) (as @ [a])" and ca2: "callable (heap w2) as"
    using w2(7,8) c1 by (simp_all add: callable_append)
  have r2: "wq_running (wq w2)"
    using w2(4) run by (simp add: w1_def)
  define w2' where "w2' = w2\<lparr>wq := (wq w2)\<lparr>wq_work_sem := wq_work_sem (wq w2) - 1\<rparr>\<rparr>"
  have it: "eventfs_wq_main_iter cbs env w2 = eventfs_wq_main_work cbs w2'"
    using r2 env w2(3) sem_post_positive [of "wq_work_sem (wq w1)" "errno w1"]
    by (simp add: eventfs_wq_main_iter_def sem_trywait_def w2'_def)
  have "wq_running (wq w2')" "pending w2' (as @ [a])" "callable (heap w2') (as @ [a])"
    using r2 w2(2) c2 by (simp_all add: w2'_def pending_def)
  note wr = work_running [OF this, of cbs]
  define es where "es = fst (batch_trace cbs (heap w2) (as @ [a]) (user w2))"
  define w3 where "w3 = w2'\<lparr>wq := (wq w2')\<lparr>wq_work := None, wq_tail := None\<rparr>,
          heap := fmdrop_set (set (as @ [a])) (heap w2'),
          user := snd (batch_trace cbs (heap w2') (as @ [a]) (user w2')),
          trace := trace w2' @ fst (batch_trace cbs (heap w2') (as @ [a]) (user w2'))\<rparr>"
  have i3: "eventfs_wq_main_iter cbs env w2 = Inr (Looping, w3)"
    using wr by (simp add: it w3_def)
  have t3: "trace w3 = trace w @ es"
    using w2(5) by (simp add: w3_def w2'_def es_def w1_def)
  have es: "es = fst (batch_trace cbs (heap w2) as (user w2))
      @ fst (batch_trace cbs (heap w2) [a] (snd (batch_trace cbs (heap w2) as (user w2))))"
    using ca2 by (simp add: es_def batch_trace_append)
  have single: "filter (is_invoke_of a) (fst (batch_trace cbs (heap w2) [a] u)) = [Invoke C a P]
      \<and> last (fst (batch_trace cbs (heap w2) [a] u)) = Release a
      \<and> fst (batch_trace cbs (heap w2) [a] u) \<noteq> []" for u
    using a2 node by (simp add: case_prod_beta)
  have f3: "filter (is_invoke_of a) es = [Invoke C a P]" and l3: "last es = Release a"
    using single new by (simp_all add: es no_invoke_of_notin)
  have h3: "fmlookup (heap w3) a = None" and p3: "pending w3 []"
    by (simp_all add: w3_def pending_def)
  have never: "\<exists>pc' w4. sys_run cbs acts (pc, w3) = Inr (pc', w4)
      \<and> count_list (invoked (trace w4)) a = count_list (invoked (trace w3)) a"
    if fr: "fresh (heap w3) (adds acts)" and di: "distinct (adds acts)" for acts pc
  proof -
    from run_fifo [OF p3 _ fr di, of cbs pc] obtain pc' w4 served pend where
      r: "sys_run cbs acts (pc, w3) = Inr (pc', w4)"
        "invoked (trace w4) = invoked (trace w3) @ served" "served @ pend = [] @ adds acts"
      by auto
    have "a \<notin> set (adds acts)"
      using fresh_allocated [OF fr] h3 by blast
    with r(3) have "a \<notin> set served"
      by (metis Un_iff append_Nil set_append)
    with r(1,2) show ?thesis
      by simp
  qed
  from w2(1) i3 t3 f3 l3 h3 p3 never show ?thesis
    unfolding w1_def node_def by blast
qed

theorem round_trip_witness:
  "wq_running (wq (demo_world True 0)) \<and> pending (demo_world True 0) []
   \<and> callable (heap (demo_world True 0)) []
   \<and> fmlookup (heap (demo_world True 0)) 1 = Some (snd (eventfs_wreq_init zero_wreq (Some 1) 10))
   \<and> 1 \<notin> set ([] :: addr list)
   \<and> trywait_err demo_env = None
   \<and> (\<exists>w2 w3 es.
         eventfs_wq_add (Some 1)
           ((demo_world True 0)
              \<lparr>heap := fmupd 1
                 (snd (eventfs_wreq_init (snd (eventfs_wreq_init zero_wreq (Some 1) 10)) (Some 7) 42))
                 (heap (demo_world True 0))\<rparr>) = Inr (0, w2)
       \<and> eventfs_wq_main_iter demo_cbs demo_env w2 = Inr (Looping, w3)
       \<and> trace w3 = trace (demo_world True 0) @ es
       \<and> filter (is_invoke_of 1) es = [Invoke 7 1 42]
       \<and> last es = Release 1
       \<and> fmlookup (heap w3) 1 = None)"
proof -
  have h: "wq_running (wq (demo_world True 0))" "pending (demo_world True 0) []"
    "callable (heap (demo_world True 0)) []"
    "fmlookup (heap (demo_world True 0)) 1 = Some (snd (eventfs_wreq_init zero_wreq (Some 1) 10))"
    "1 \<notin> set ([] :: addr list)" "trywait_err demo_env = None"
    by (simp_all add: pending_def demo_defs)
  from round_trip [OF h, of 7 42 demo_cbs] h show ?thesis
    by blast
qed

subsection \<open>Enqueue and the invariant of the chain\<close>

text \<open>
  C3, as the claim states it: in every queue state \<^verbatim>\<open>eventfs_wq_add\<close> adds exactly one to
  the semaphore count. It does not on a semaphore whose count has reached
  \<^verbatim>\<open>SEM_VALUE_MAX\<close>: \<^verbatim>\<open>sem_post\<close> fails there with \<^verbatim>\<open>EOVERFLOW\<close>, \<^verbatim>\<open>eventfs_wq_add\<close> does not look
  at its result, links the request, returns 0, and the count is what it was.
\<close>

theorem enqueue_at_greatest_count:
  "eventfs_wq_add (Some 1) (demo_world True SEM_VALUE_MAX) =
     Inr (0, (demo_world True SEM_VALUE_MAX)
               \<lparr>wq := (wq (demo_world True SEM_VALUE_MAX))\<lparr>wq_work := Some 1, wq_tail := Some 1\<rparr>,
                errno := EOVERFLOW\<rparr>)
   \<and> wq_work_sem (wq ((demo_world True SEM_VALUE_MAX)
               \<lparr>wq := (wq (demo_world True SEM_VALUE_MAX))\<lparr>wq_work := Some 1, wq_tail := Some 1\<rparr>,
                errno := EOVERFLOW\<rparr>))
       = wq_work_sem (wq (demo_world True SEM_VALUE_MAX))"
  by (simp add: eventfs_wq_add_def sem_post_def demo_world_def zero_wq_def)

text \<open>
  C3, amended. On a well-formed queue \<^verbatim>\<open>eventfs_wq_add\<close> has one outcome, for every request
  pointer: it returns 0; on an empty chain the request becomes \<^verbatim>\<open>work\<close> and \<^verbatim>\<open>tail\<close>; on a
  chain that is not empty the \<^verbatim>\<open>next\<close> field of the node at the current tail is set to
  the request, which becomes the new \<^verbatim>\<open>tail\<close>, and the head stays; the semaphore count
  grows by exactly one if it is below \<^verbatim>\<open>SEM_VALUE_MAX\<close>, and stays as it is, with \<^verbatim>\<open>errno\<close>
  set to \<^verbatim>\<open>EOVERFLOW\<close>, if it has reached \<^verbatim>\<open>SEM_VALUE_MAX\<close>; nothing else changes.
\<close>

theorem enqueue_postcondition:
  assumes "pending w as"
  shows "(as = [] \<longrightarrow>
            eventfs_wq_add wreq w =
              Inr (0, w\<lparr>wq := (wq w)\<lparr>wq_work := wreq, wq_tail := wreq,
                          wq_work_sem :=
                            (if wq_work_sem (wq w) < SEM_VALUE_MAX
                             then wq_work_sem (wq w) + 1 else wq_work_sem (wq w))\<rparr>,
                        errno :=
                          (if wq_work_sem (wq w) < SEM_VALUE_MAX then errno w else EOVERFLOW)\<rparr>))
       \<and> (as \<noteq> [] \<longrightarrow>
            (\<exists>n. fmlookup (heap w) (last as) = Some n \<and>
               eventfs_wq_add wreq w =
                 Inr (0, w\<lparr>heap := fmupd (last as) (n\<lparr>wreq_next := wreq\<rparr>) (heap w),
                           wq := (wq w)\<lparr>wq_tail := wreq,
                             wq_work_sem :=
                               (if wq_work_sem (wq w) < SEM_VALUE_MAX
                                then wq_work_sem (wq w) + 1 else wq_work_sem (wq w))\<rparr>,
                           errno :=
                             (if wq_work_sem (wq w) < SEM_VALUE_MAX then errno w
                              else EOVERFLOW)\<rparr>)))"
proof (cases "as = []")
  case True
  with assms have "wq_work (wq w) = None"
    by (simp add: pending_def)
  from add_empty [OF this, of wreq] True show ?thesis
    by (simp add: sem_post_count sem_post_errno)
next
  case False
  with assms have hd: "wq_work (wq w) \<noteq> None" and tl: "wq_tail (wq w) = Some (last as)"
    and ch: "chain (heap w) (wq_work (wq w)) as"
    by (cases as; simp add: pending_def)+
  from chain_last_allocated [OF ch False] obtain n
    where n: "fmlookup (heap w) (last as) = Some n"
    by blast
  from add_nonempty [OF hd tl n, of wreq] False n show ?thesis
    by (simp add: sem_post_count sem_post_errno)
qed

theorem enqueue_postcondition_witness:
  "pending (demo_world True 0) []
   \<and> eventfs_wq_add (Some 1) (demo_world True 0) =
       Inr (0, (demo_world True 0)\<lparr>wq := (wq (demo_world True 0))\<lparr>wq_work := Some 1,
                 wq_tail := Some 1, wq_work_sem := 1\<rparr>\<rparr>)
   \<and> pending ((demo_world True 1)\<lparr>wq := (wq (demo_world True 1))\<lparr>wq_work := Some 1,
                 wq_tail := Some 1\<rparr>\<rparr>) [1]
   \<and> eventfs_wq_add (Some 2) ((demo_world True 1)\<lparr>wq := (wq (demo_world True 1))\<lparr>wq_work := Some 1,
                 wq_tail := Some 1\<rparr>\<rparr>) =
       Inr (0, (demo_world True 1)
                 \<lparr>heap := fmupd 1 \<lparr>wreq_work = Some 1, wreq_work_data = 10, wreq_next = Some 2\<rparr>
                            demo_heap,
                  wq := (wq (demo_world True 1))\<lparr>wq_work := Some 1, wq_tail := Some 2,
                    wq_work_sem := 2\<rparr>\<rparr>)
   \<and> pending (demo_world True SEM_VALUE_MAX) []
   \<and> eventfs_wq_add (Some 1) (demo_world True SEM_VALUE_MAX) =
       Inr (0, (demo_world True SEM_VALUE_MAX)
                 \<lparr>wq := (wq (demo_world True SEM_VALUE_MAX))\<lparr>wq_work := Some 1,
                    wq_tail := Some 1\<rparr>,
                  errno := EOVERFLOW\<rparr>)"
proof -
  let ?w1 = "(demo_world True 1)\<lparr>wq := (wq (demo_world True 1))\<lparr>wq_work := Some 1,
      wq_tail := Some 1\<rparr>\<rparr>"
  have p0: "pending (demo_world True 0) []"
    by (simp add: pending_def demo_world_def zero_wq_def)
  have p1: "pending ?w1 [1]"
    by (simp add: pending_def demo_world_def demo_heap_def eventfs_wreq_init_def zero_wreq_def)
  have p2: "pending (demo_world True SEM_VALUE_MAX) []"
    by (simp add: pending_def demo_world_def zero_wq_def)
  from enqueue_postcondition [OF p0, of "Some 1"] enqueue_postcondition [OF p1, of "Some 2"]
    enqueue_postcondition [OF p2, of "Some 1"] p0 p1 p2
  show ?thesis
    by (simp add: demo_world_def demo_heap_def zero_wq_def eventfs_wreq_init_def zero_wreq_def
        SEM_VALUE_MAX_def)
qed

text \<open>
  C4. \<^verbatim>\<open>work\<close> is \<^verbatim>\<open>NULL\<close> exactly when \<^verbatim>\<open>tail\<close> is: \<^verbatim>\<open>eventfs_wq_init\<close> establishes it, and
  if it holds before, it holds after \<^verbatim>\<open>eventfs_wq_add\<close> of a request (a pointer other than
  \<^verbatim>\<open>NULL\<close>), after every step of the worker (which sets both to \<^verbatim>\<open>NULL\<close> when it detaches
  the chain), after \<^verbatim>\<open>eventfs_wq_free\<close>, and after \<^verbatim>\<open>eventfs_wq_start\<close> and
  \<^verbatim>\<open>eventfs_wq_stop\<close>.
\<close>

theorem head_tail_invariant:
  assumes "head_tail_inv (wq w)"
  shows "head_tail_inv (wq (snd (eventfs_wq_init mutex_rc w0)))
       \<and> (\<forall>wreq rc w'. wreq \<noteq> None \<longrightarrow> eventfs_wq_add wreq w = Inr (rc, w')
             \<longrightarrow> head_tail_inv (wq w'))
       \<and> (\<forall>cbs env pc pc' w'. eventfs_wq_main_step cbs env (pc, w) = Inr (pc', w')
             \<longrightarrow> head_tail_inv (wq w'))
       \<and> (\<forall>rc w'. eventfs_wq_free w = Inr (rc, w') \<longrightarrow> head_tail_inv (wq w'))
       \<and> head_tail_inv (wq (snd (eventfs_wq_start created w)))
       \<and> head_tail_inv (wq (snd (eventfs_wq_stop w)))"
proof (intro conjI allI impI)
  show "head_tail_inv (wq (snd (eventfs_wq_init mutex_rc w0)))"
    by (simp add: eventfs_wq_init_def head_tail_inv_def zero_wq_def Let_def)
next
  fix wreq rc w'
  assume "wreq \<noteq> None" and "eventfs_wq_add wreq w = Inr (rc, w')"
  then show "head_tail_inv (wq w')"
    by (auto simp: eventfs_wq_add_def head_tail_inv_def Let_def case_prod_beta
             split: if_splits option.splits)
next
  fix cbs :: "'a callbacks" and env pc pc' w'
  assume "eventfs_wq_main_step cbs env (pc, w) = Inr (pc', w')"
  with assms show "head_tail_inv (wq w')"
    by (cases pc) (auto simp: eventfs_wq_main_step_def dest: iter_inv wait_inv)
next
  fix rc w'
  assume "eventfs_wq_free w = Inr (rc, w')"
  with assms show "head_tail_inv (wq w')"
    by (auto simp: eventfs_wq_free_def log_event_def head_tail_inv_def zero_wq_def
             split: if_splits sum.splits)
next
  from assms show "head_tail_inv (wq (snd (eventfs_wq_start created w)))"
    by (simp add: eventfs_wq_start_def head_tail_inv_def Let_def log_event_def)
next
  from assms show "head_tail_inv (wq (snd (eventfs_wq_stop w)))"
    by (simp add: eventfs_wq_stop_def head_tail_inv_def Let_def log_event_def case_prod_beta)
qed

theorem head_tail_invariant_witness:
  "head_tail_inv (wq (demo_world True 0))
   \<and> (\<exists>w'. eventfs_wq_add (Some 1) (demo_world True 0) = Inr (0, w')
         \<and> wq_work (wq w') = Some 1 \<and> head_tail_inv (wq w'))
   \<and> head_tail_inv (wq (demo_queued True))
   \<and> (\<exists>w'. eventfs_wq_main_step demo_cbs demo_env (Looping, demo_queued True) = Inr (Looping, w')
         \<and> wq_work (wq w') = None \<and> head_tail_inv (wq w'))
   \<and> head_tail_inv (wq (demo_queued False))
   \<and> (\<exists>w'. eventfs_wq_free (demo_queued False) = Inr (0, w') \<and> head_tail_inv (wq w'))"
proof -
  have i0: "head_tail_inv (wq (demo_world True 0))"
    and i1: "head_tail_inv (wq (demo_queued True))"
    and i2: "head_tail_inv (wq (demo_queued False))"
    by (simp_all add: head_tail_inv_def demo_defs)
  have a: "eventfs_wq_add (Some 1) (demo_world True 0) =
       Inr (0, (demo_world True 0)\<lparr>wq := (wq (demo_world True 0))\<lparr>wq_work := Some 1,
                 wq_tail := Some 1, wq_work_sem := 1\<rparr>\<rparr>)"
    by (simp add: eventfs_wq_add_def sem_post_def SEM_VALUE_MAX_def demo_defs)
  have s: "eventfs_wq_main_step demo_cbs demo_env (Looping, demo_queued True) =
       Inr (Looping, (demo_world True 1)\<lparr>heap := fmdrop_set {1, 2} demo_heap,
              trace := [Invoke 1 1 10, Report_work 1 5, Release 1, Invoke 0 2 20, Release 2]\<rparr>)"
    by (simp add: eventfs_wq_main_step_def eventfs_wq_main_iter_def eventfs_wq_main_work_def
        sem_trywait_def eventfs_wq_main_batch.simps release_node_eq log_event_def demo_defs
        fmdrop_fmupd)
  have f: "eventfs_wq_free (demo_queued False) =
       Inr (0, \<lparr>wq = zero_wq, heap = fmdrop_set {1, 2} demo_heap, errno = 0, user = (),
              trace = [Release 1, Release 2, Mutex_destroy, Sem_destroy]\<rparr>)"
    by (simp add: eventfs_wq_free_def eventfs_wq_queue_free.simps release_node_eq log_event_def
        demo_defs fmdrop_fmupd)
  note t0 = head_tail_invariant [OF i0, of 0 "demo_world True 0" "(0, 0)"]
  note t1 = head_tail_invariant [OF i1, of 0 "demo_world True 0" "(0, 0)"]
  note t2 = head_tail_invariant [OF i2, of 0 "demo_world True 0" "(0, 0)"]
  from t0 have "\<And>wreq rc w'. wreq \<noteq> None
      \<Longrightarrow> eventfs_wq_add wreq (demo_world True 0) = Inr (rc, w') \<Longrightarrow> head_tail_inv (wq w')"
    by blast
  from this [OF _ a] a have "\<exists>w'. eventfs_wq_add (Some 1) (demo_world True 0) = Inr (0, w')
         \<and> wq_work (wq w') = Some 1 \<and> head_tail_inv (wq w')"
    by simp
  moreover from t1 have "\<And>pc pc' w'.
      eventfs_wq_main_step demo_cbs demo_env (pc, demo_queued True) = Inr (pc', w')
      \<Longrightarrow> head_tail_inv (wq w')"
    by blast
  from this [OF s] s have "\<exists>w'. eventfs_wq_main_step demo_cbs demo_env (Looping, demo_queued True)
           = Inr (Looping, w')
         \<and> wq_work (wq w') = None \<and> head_tail_inv (wq w')"
    by (simp add: demo_defs)
  moreover from t2 have "\<And>rc w'. eventfs_wq_free (demo_queued False) = Inr (rc, w')
      \<Longrightarrow> head_tail_inv (wq w')"
    by blast
  from this [OF f] f have "\<exists>w'. eventfs_wq_free (demo_queued False) = Inr (0, w')
         \<and> head_tail_inv (wq w')"
    by simp
  ultimately show ?thesis
    using i0 i1 i2 by simp
qed

subsection \<open>Failing callbacks\<close>

text \<open>
  C5. When the worker, on a running well-formed queue, gets to detach the chain \<open>as\<close>, it
  works through all of it, whatever the callbacks return: for each node in turn the
  trace gets the invocation, the report of the status if that is not 0, and the release
  of the node, before anything of the next node (\<open>batch_trace\<close>); every node of \<open>as\<close> is
  invoked and every node is released, in the order of the chain; the nodes are out of the
  store; and the worker is back at the top of its loop with \<^verbatim>\<open>running\<close> still set, where
  the next batch is treated the same way.
\<close>

theorem failing_callback_does_not_stop_worker:
  assumes "wq_running (wq w)" and "pending w as" and "callable (heap w) as"
  shows "\<exists>w'. eventfs_wq_main_work cbs w = Inr (Looping, w')
           \<and> trace w' = trace w @ fst (batch_trace cbs (heap w) as (user w))
           \<and> invoked (fst (batch_trace cbs (heap w) as (user w))) = as
           \<and> released (fst (batch_trace cbs (heap w) as (user w))) = as
           \<and> heap w' = fmdrop_set (set as) (heap w)
           \<and> wq w' = (wq w)\<lparr>wq_work := None, wq_tail := None\<rparr>"
  using work_running [OF assms, of cbs] assms(3)
  by (simp add: invoked_batch_trace released_batch_trace)

theorem failing_callback_does_not_stop_worker_witness:
  "wq_running (wq (demo_queued True)) \<and> pending (demo_queued True) [1, 2]
   \<and> callable (heap (demo_queued True)) [1, 2]
   \<and> (\<exists>w'. eventfs_wq_main_work demo_cbs (demo_queued True) = Inr (Looping, w')
         \<and> trace w' = [Invoke 1 1 10, Report_work 1 5, Release 1, Invoke 0 2 20, Release 2]
         \<and> wq w' = wq (demo_world True 2))"
proof -
  have r: "wq_running (wq (demo_queued True))"
    by (simp add: demo_defs)
  have p: "pending (demo_queued True) [1, 2]"
    by (simp add: pending_def demo_defs)
  have c: "callable (heap (demo_queued True)) [1, 2]"
    by (simp add: callable_def demo_defs)
  from failing_callback_does_not_stop_worker [OF r p c, of demo_cbs] obtain w' where
    "eventfs_wq_main_work demo_cbs (demo_queued True) = Inr (Looping, w')"
    "trace w' = trace (demo_queued True)
       @ fst (batch_trace demo_cbs (heap (demo_queued True)) [1, 2] (user (demo_queued True)))"
    "wq w' = (wq (demo_queued True))\<lparr>wq_work := None, wq_tail := None\<rparr>"
    by blast
  then have "eventfs_wq_main_work demo_cbs (demo_queued True) = Inr (Looping, w')
      \<and> trace w' = [Invoke 1 1 10, Report_work 1 5, Release 1, Invoke 0 2 20, Release 2]
      \<and> wq w' = wq (demo_world True 2)"
    by (simp add: demo_defs)
  then have "\<exists>w'. eventfs_wq_main_work demo_cbs (demo_queued True) = Inr (Looping, w')
      \<and> trace w' = [Invoke 1 1 10, Report_work 1 5, Release 1, Invoke 0 2 20, Release 2]
      \<and> wq w' = wq (demo_world True 2)" ..
  with r p c show ?thesis
    by simp
qed

subsection \<open>Lifecycle\<close>

text \<open>
  C6, as the claim states it: the three misuse cases return distinct error codes. They
  do not: \<^verbatim>\<open>eventfs_wq_start\<close> on a running queue and \<^verbatim>\<open>eventfs_wq_stop\<close> on a queue that
  is not running return the same code.
\<close>

theorem misuse_codes_coincide:
  "\<not> (fst (eventfs_wq_start (0, 7) (demo_world True 0))
        \<noteq> fst (eventfs_wq_stop (demo_world False 0)))"
  by (simp add: eventfs_wq_start_def eventfs_wq_stop_def demo_world_def zero_wq_def)

text \<open>
  C6, amended. \<^verbatim>\<open>eventfs_wq_start\<close> and \<^verbatim>\<open>eventfs_wq_free\<close> on a running queue, and
  \<^verbatim>\<open>eventfs_wq_stop\<close> on a queue that is not running, each return the one code
  \<^verbatim>\<open>-EINVAL\<close>, which is not the code of success, and leave the whole world, so every
  field of the queue, as it was.
\<close>

theorem misuse_rejected:
  "(wq_running (wq w) \<longrightarrow>
      eventfs_wq_start created w = (- EINVAL, w) \<and> eventfs_wq_free w = Inr (- EINVAL, w))
   \<and> (\<not> wq_running (wq w) \<longrightarrow> eventfs_wq_stop w = (- EINVAL, w))
   \<and> - EINVAL \<noteq> 0"
  by (simp add: eventfs_wq_start_def eventfs_wq_stop_def eventfs_wq_free_def EINVAL_def)

theorem misuse_rejected_witness:
  "wq_running (wq (demo_world True 3)) \<and> \<not> wq_running (wq (demo_world False 3))
   \<and> eventfs_wq_start (0, 7) (demo_world True 3) = (- 22, demo_world True 3)
   \<and> eventfs_wq_free (demo_world True 3) = Inr (- 22, demo_world True 3)
   \<and> eventfs_wq_stop (demo_world False 3) = (- 22, demo_world False 3)"
  using misuse_rejected [of "demo_world True 3" "(0, 7)"]
    misuse_rejected [of "demo_world False 3" "(0, 7)"]
  by (simp add: demo_world_def EINVAL_def)

text \<open>
  C7. When \<^verbatim>\<open>pthread_create\<close> fails, \<^verbatim>\<open>eventfs_wq_start\<close> clears \<^verbatim>\<open>running\<close> again, but what
  it returns is \<^verbatim>\<open>-errno\<close>, not the error \<^verbatim>\<open>pthread_create\<close> returned. With
  \<^verbatim>\<open>pthread_create\<close> failing with \<^verbatim>\<open>EAGAIN\<close> (11) while \<^verbatim>\<open>errno\<close> is 0, the call returns 0,
  the code of success, and reports the error 0.
\<close>

theorem start_returns_stale_errno:
  "eventfs_wq_start (11, 0) (demo_world False 0) =
     (0, (demo_world False 0)\<lparr>trace := [Report_create 0]\<rparr>)"
  by (simp add: eventfs_wq_start_def demo_world_def log_event_def)

text \<open>
  C8. \<^verbatim>\<open>eventfs_wq_free\<close> on a well-formed queue that is not running returns 0; it releases
  every request of the pending chain, in order, and invokes no callback (the callbacks'
  own state is as before); then it destroys the mutex and the semaphore; the structure
  is zeroed. For a chain of N requests the trace gets N releases and no invocation.
\<close>

theorem free_discards_pending:
  assumes "\<not> wq_running (wq w)" and "pending w as"
  shows "\<exists>w'. eventfs_wq_free w = Inr (0, w')
           \<and> wq w' = zero_wq
           \<and> heap w' = fmdrop_set (set as) (heap w)
           \<and> trace w' = trace w @ map Release as @ [Mutex_destroy, Sem_destroy]
           \<and> invoked (trace w') = invoked (trace w)
           \<and> user w' = user w"
proof -
  from assms(2) have "chain (heap w) (wq_work (wq w)) as"
    by (simp add: pending_def)
  from queue_free_chain [OF this] assms(1) show ?thesis
    by (simp add: eventfs_wq_free_def log_event_def invoked_append)
qed

theorem free_discards_pending_witness:
  "\<not> wq_running (wq (demo_queued False)) \<and> pending (demo_queued False) [1, 2]
   \<and> (\<exists>w'. eventfs_wq_free (demo_queued False) = Inr (0, w')
         \<and> wq w' = zero_wq
         \<and> trace w' = [Release 1, Release 2, Mutex_destroy, Sem_destroy]
         \<and> invoked (trace w') = [])"
proof -
  have r: "\<not> wq_running (wq (demo_queued False))"
    by (simp add: demo_defs)
  have p: "pending (demo_queued False) [1, 2]"
    by (simp add: pending_def demo_defs)
  from free_discards_pending [OF r p] obtain w' where
    "eventfs_wq_free (demo_queued False) = Inr (0, w')" "wq w' = zero_wq"
    "trace w' = trace (demo_queued False) @ map Release [1, 2] @ [Mutex_destroy, Sem_destroy]"
    "invoked (trace w') = invoked (trace (demo_queued False))"
    by blast
  then have "eventfs_wq_free (demo_queued False) = Inr (0, w') \<and> wq w' = zero_wq
      \<and> trace w' = [Release 1, Release 2, Mutex_destroy, Sem_destroy]
      \<and> invoked (trace w') = []"
    by (simp add: demo_defs)
  then have "\<exists>w'. eventfs_wq_free (demo_queued False) = Inr (0, w') \<and> wq w' = zero_wq
      \<and> trace w' = [Release 1, Release 2, Mutex_destroy, Sem_destroy]
      \<and> invoked (trace w') = []" ..
  with r p show ?thesis
    by simp
qed

subsection \<open>Failing waits\<close>



subsection \<open>Enqueue on a queue that is not running\<close>




end
